theory Spec2Isabelle
  imports Main "HOL-Library.Word"
begin

section \<open>sync\_media: the index codec and one synchronisation run\<close>

text \<open>
  A shallow embedding of \<^verbatim>\<open>sync_media.py\<close>. Bytes are 8-bit words, file names and
  hash strings are character lists (one \<open>char\<close> for each character, so that \<open>length\<close>
  is Python's \<^verbatim>\<open>len\<close>), the destination directory is an association list in
  iteration order, and every exception the run can meet is a value of \<open>error\<close>.
  Console output (\<^verbatim>\<open>echo\<close>, the progress bar) is not part of the model.
\<close>

subsection \<open>Bytes and their hexadecimal form\<close>

type_synonym byte = "8 word"

text \<open>Line 31: \<^verbatim>\<open>HEXDIGIT = "0123456789abcdef"\<close>.\<close>

definition HEXDIGIT :: string where
  "HEXDIGIT = ''0123456789abcdef''"

text \<open>
  Python's built-in \<^verbatim>\<open>bytes.hex()\<close>: two lowercase digits for each byte, the high
  nibble first.
\<close>

definition hex_nibble :: "nat \<Rightarrow> char" where
  "hex_nibble n = ''0123456789abcdef'' ! n"

definition hex_byte :: "byte \<Rightarrow> string" where
  "hex_byte b = [hex_nibble (unat b div 16), hex_nibble (unat b mod 16)]"

definition bytes_hex :: "byte list \<Rightarrow> string" where
  "bytes_hex bs = concat (map hex_byte bs)"

subsection \<open>Errors\<close>

text \<open>
  \<open>RuntimeError\<close> is raised by \<^verbatim>\<open>iter_mth\<close> itself. The others come from the
  operations \<^verbatim>\<open>main\<close> calls: \<^verbatim>\<open>media_index[-1]\<close> on an empty string, opening
  or removing a path that is a directory, removing a missing path, and a request that
  the transport cannot complete.
\<close>

datatype error =
    RuntimeError string
  | IndexError
  | IsADirectoryError string
  | FileNotFoundError string
  | TransportError string

subsection \<open>The index codec: \<^verbatim>\<open>iter_mth\<close>\<close>

text \<open>The literal \<^verbatim>\<open>b"MTHS\x00\x01"\<close> of lines 52 and 113.\<close>

definition MTHS_HEADER :: "byte list" where
  "MTHS_HEADER = [0x4D, 0x54, 0x48, 0x53, 0x00, 0x01]"

text \<open>
  Lines 54--55: \<^verbatim>\<open>for i in range(6, len(data), 20): yield data[i:i+20].hex()\<close>.
  \<open>mth_chunks i data\<close> is the loop from index \<open>i\<close> on; the slice \<^verbatim>\<open>data[i:i+20]\<close>
  is \<open>take 20 (drop i data)\<close>, which is shorter than 20 at the end of the data, as a
  Python slice is.
\<close>

function mth_chunks :: "nat \<Rightarrow> byte list \<Rightarrow> string list" where
  "mth_chunks i data =
     (if i < length data
      then bytes_hex (take 20 (drop i data)) # mth_chunks (i + 20) data
      else [])"
  by pat_completeness auto
termination
  by (relation "measure (\<lambda>(i, data). length data - i)") auto

declare mth_chunks.simps [simp del]

text \<open>
  Lines 52--55. The generator runs its header test when the first element is asked
  for, so the error comes before any hash: the result is either the error or the whole
  sequence of yielded strings.
\<close>

definition iter_mth :: "byte list \<Rightarrow> error + string list" where
  "iter_mth data =
     (if take 6 data \<noteq> MTHS_HEADER
      then Inl (RuntimeError ''Invalid index.mth'')
      else Inr (mth_chunks 6 data))"

subsection \<open>The destination directory\<close>

text \<open>
  An entry of the destination directory is a regular file with its content or a
  directory. The directory itself is the list of its entries in iteration order, the
  order of \<^verbatim>\<open>os.listdir\<close> and \<^verbatim>\<open>os.scandir\<close>; a new file goes to the end.
  The file system leaves that order open: the list fixes one order, and only the order of
  the digests in a generated index depends on it.
\<close>

datatype node = File "byte list" | Dir

type_synonym directory = "(string \<times> node) list"

definition os_listdir :: "directory \<Rightarrow> string list" where
  "os_listdir d = map fst d"

fun is_file :: "node \<Rightarrow> bool" where
  "is_file (File _) = True"
| "is_file Dir = False"

text \<open>Replace or create the entry \<open>name\<close> with a regular file of the given content.\<close>

fun put_file :: "string \<Rightarrow> byte list \<Rightarrow> directory \<Rightarrow> directory" where
  "put_file name content [] = [(name, File content)]"
| "put_file name content ((n, nd) # es) =
     (if n = name then (name, File content) # es
      else (n, nd) # put_file name content es)"

text \<open>
  \<^verbatim>\<open>open(path, "wb")\<close> followed by writes of \<open>content\<close>: the file is created or
  truncated and then holds exactly \<open>content\<close>; a directory of that name cannot be
  opened.
\<close>

definition write_file :: "string \<Rightarrow> byte list \<Rightarrow> directory \<Rightarrow> error + directory" where
  "write_file name content d =
     (case map_of d name of
        Some Dir \<Rightarrow> Inl (IsADirectoryError name)
      | _ \<Rightarrow> Inr (put_file name content d))"

text \<open>\<^verbatim>\<open>os.remove(path)\<close>: only a regular file can be removed.\<close>

definition os_remove :: "string \<Rightarrow> directory \<Rightarrow> error + directory" where
  "os_remove name d =
     (case map_of d name of
        None \<Rightarrow> Inl (FileNotFoundError name)
      | Some Dir \<Rightarrow> Inl (IsADirectoryError name)
      | Some (File _) \<Rightarrow> Inr (filter (\<lambda>e. fst e \<noteq> name) d))"

subsection \<open>The run: \<^verbatim>\<open>main\<close>\<close>

text \<open>
  The variables of \<^verbatim>\<open>main\<close> that change during a run, and two records of what the
  run did: \<open>to_download\<close> lists, in order, the names opened for writing on line 92, and
  \<open>to_delete\<close> the names passed to \<^verbatim>\<open>os.remove\<close> on line 108.
\<close>

record sync_state =
  dir :: directory
  list_files :: "string list"
  found_count :: nat
  download_count :: nat
  delete_count :: nat
  to_download :: "string list"
  to_delete :: "string list"

text \<open>
  Lines 104 and 116: \<^verbatim>\<open>len(name) != 40 or not any(c in HEXDIGIT for c in name)\<close>.
\<close>

definition not_media_name :: "string \<Rightarrow> bool" where
  "not_media_name name =
     (length name \<noteq> 40 \<or> \<not> list_ex (\<lambda>c. c \<in> set HEXDIGIT) name)"

text \<open>
  Lines 90--98: count the download, open \<^verbatim>\<open>destination/file_hash\<close> for writing,
  request \<^verbatim>\<open>media_index + file_hash\<close> and write the body that arrives. \<open>get\<close> maps a
  URL to the body of its response, \<open>None\<close> when the request fails.
\<close>

definition download :: "string \<Rightarrow> (string \<rightharpoonup> byte list) \<Rightarrow> string \<Rightarrow> sync_state
    \<Rightarrow> error + sync_state" where
  "download media_index get file_hash s =
     (let s1 = s\<lparr>download_count := download_count s + 1,
                 to_download := to_download s @ [file_hash]\<rparr>
      in case write_file file_hash [] (dir s1) of
           Inl e \<Rightarrow> Inl e
         | Inr d \<Rightarrow>
             (case get (media_index @ file_hash) of
                None \<Rightarrow> Inl (TransportError (media_index @ file_hash))
              | Some body \<Rightarrow> Inr (s1\<lparr>dir := put_file file_hash body d\<rparr>)))"

text \<open>
  Lines 80--98, the loop over the hashes of the index. \<^verbatim>\<open>list_files.remove\<close> takes
  out the first occurrence; \<^verbatim>\<open>continue\<close> is the branch that goes on with the next
  hash without a download.
\<close>

fun download_loop :: "bool \<Rightarrow> string \<Rightarrow> (string \<rightharpoonup> byte list) \<Rightarrow> string list
    \<Rightarrow> sync_state \<Rightarrow> error + sync_state" where
  "download_loop redownload media_index get [] s = Inr s"
| "download_loop redownload media_index get (file_hash # rest) s =
     (let s1 = s\<lparr>found_count := found_count s + 1\<rparr>;
          present = (file_hash \<in> set (list_files s1));
          s2 = (if present
                then s1\<lparr>list_files := remove1 file_hash (list_files s1)\<rparr>
                else s1)
      in if present \<and> \<not> redownload
         then download_loop redownload media_index get rest s2
         else (case download media_index get file_hash s2 of
                 Inl e \<Rightarrow> Inl e
               | Inr s3 \<Rightarrow> download_loop redownload media_index get rest s3))"

text \<open>Lines 103--108, the loop over the names left in \<^verbatim>\<open>list_files\<close>.\<close>

fun delete_loop :: "string list \<Rightarrow> sync_state \<Rightarrow> error + sync_state" where
  "delete_loop [] s = Inr s"
| "delete_loop (file_name # rest) s =
     (if not_media_name file_name then delete_loop rest s
      else
        (let s1 = s\<lparr>delete_count := delete_count s + 1,
                    to_delete := to_delete s @ [file_name]\<rparr>
         in case os_remove file_name (dir s1) of
              Inl e \<Rightarrow> Inl e
            | Inr d \<Rightarrow> delete_loop rest (s1\<lparr>dir := d\<rparr>)))"

text \<open>
  Lines 115--121, the loop over the entries \<^verbatim>\<open>os.scandir\<close> gives; the result is the
  sequence of bytes written to the index after its header. \<open>sha1\<close> stands for
  \<^verbatim>\<open>hashlib\<close>'s SHA-1 digest of a file's content. No selected entry is the index
  itself, so each file still has the content the scan found.
\<close>

fun hash_entries :: "(byte list \<Rightarrow> byte list) \<Rightarrow> directory \<Rightarrow> byte list" where
  "hash_entries sha1 [] = []"
| "hash_entries sha1 ((name, nd) # rest) =
     (if not_media_name name \<or> \<not> is_file nd then hash_entries sha1 rest
      else
        (case nd of
           File content \<Rightarrow> sha1 content @ hash_entries sha1 rest
         | Dir \<Rightarrow> hash_entries sha1 rest))"

text \<open>
  Lines 111--121: the index is opened for writing (and so exists when the directory is
  scanned), the header is written, then the digests.
\<close>

definition generate_index :: "(byte list \<Rightarrow> byte list) \<Rightarrow> directory \<Rightarrow> error + directory" where
  "generate_index sha1 d =
     (case write_file ''index.mth'' MTHS_HEADER d of
        Inl e \<Rightarrow> Inl e
      | Inr d1 \<Rightarrow> Inr (put_file ''index.mth'' (MTHS_HEADER @ hash_entries sha1 d1) d1))"

text \<open>Lines 69--70: a slash is appended to the base URL unless it ends in one.\<close>

definition base_url :: "string \<Rightarrow> string" where
  "base_url media_index =
     (if last media_index \<noteq> CHR ''/'' then media_index @ ''/'' else media_index)"

text \<open>
  Lines 64--128. \<open>destination\<close> is the content of the destination directory when the
  run starts; \<open>post\<close> and \<open>get\<close> are the server's answers to the two kinds of request
  (the body of the response for a URL, \<open>None\<close> for a request that fails).
  \<^verbatim>\<open>media_index[-1]\<close> raises on the empty string.
\<close>

definition main :: "bool \<Rightarrow> bool \<Rightarrow> bool \<Rightarrow> string \<Rightarrow> directory
    \<Rightarrow> (string \<rightharpoonup> byte list) \<Rightarrow> (string \<rightharpoonup> byte list) \<Rightarrow> (byte list \<Rightarrow> byte list)
    \<Rightarrow> error + sync_state" where
  "main delete generate redownload media_index destination post get sha1 =
     (if media_index = [] then Inl IndexError
      else
        (case post (base_url media_index @ ''index.mth'') of
           None \<Rightarrow> Inl (TransportError (base_url media_index @ ''index.mth''))
         | Some mth_bytes \<Rightarrow>
             (case iter_mth mth_bytes of
                Inl e \<Rightarrow> Inl e
              | Inr hashes \<Rightarrow>
                  (case download_loop redownload (base_url media_index) get hashes
                          \<lparr>dir = destination, list_files = os_listdir destination,
                           found_count = 0, download_count = 0, delete_count = 0,
                           to_download = [], to_delete = []\<rparr> of
                     Inl e \<Rightarrow> Inl e
                   | Inr s1 \<Rightarrow>
                       (case (if delete then delete_loop (list_files s1) s1 else Inr s1) of
                          Inl e \<Rightarrow> Inl e
                        | Inr s2 \<Rightarrow>
                            (case (if generate then generate_index sha1 (dir s2)
                                   else write_file ''index.mth'' mth_bytes (dir s2)) of
                               Inl e \<Rightarrow> Inl e
                             | Inr d \<Rightarrow> Inr (s2\<lparr>dir := d\<rparr>)))))))"

subsection \<open>Inputs for the examples\<close>

text \<open>
  A digest function of the right output length for the examples (the theorems hold
  for every digest function), and a media name of 40 characters.
\<close>

definition zero_digest :: "byte list \<Rightarrow> byte list" where
  "zero_digest content = replicate 20 0"

definition name_1f :: string where
  "name_1f = ''1f1f1f1f1f1f1f1f1f1f1f1f1f1f1f1f1f1f1f1f''"

definition hash_1f :: "byte list" where
  "hash_1f = replicate 20 0x1F"

definition name_cc :: string where
  "name_cc = ''cccccccccccccccccccccccccccccccccccccccc''"

text \<open>
  A destination directory with two media files, a file and a directory of other names;
  a server that answers the request for the index with the given bytes, and one that
  has two media files.
\<close>

definition example_dir :: directory where
  "example_dir =
     [(name_1f, File [7]), (name_cc, File [8]), (''notes.txt'', File [9]), (''sub'', Dir)]"

definition example_post :: "byte list \<Rightarrow> (string \<rightharpoonup> byte list)" where
  "example_post mth_bytes = map_of [(''http://s/index.mth'', mth_bytes)]"

definition example_get :: "string \<rightharpoonup> byte list" where
  "example_get = map_of [(''http://s/'' @ name_1f, [1, 2, 3]), (''http://s/ab'', [4])]"

section \<open>Properties of the codec\<close>

subsection \<open>The hexadecimal form\<close>

lemma length_hex_byte: "length (hex_byte b) = 2"
  by (simp add: hex_byte_def)

lemma length_bytes_hex: "length (bytes_hex bs) = 2 * length bs"
  by (induction bs) (simp_all add: bytes_hex_def length_hex_byte)

lemma hex_nibble_in: "n < 16 \<Longrightarrow> hex_nibble n \<in> set HEXDIGIT"
proof -
  assume "n < 16"
  then have "n < length ''0123456789abcdef''" by simp
  then have "''0123456789abcdef'' ! n \<in> set ''0123456789abcdef''" by (rule nth_mem)
  then show ?thesis by (simp only: hex_nibble_def HEXDIGIT_def)
qed

lemma unat_byte_div: "unat (b :: byte) div 16 < 16"
proof -
  have "unat b < 2 ^ LENGTH(8)" by (rule unsigned_less)
  then show ?thesis by simp
qed

lemma set_hex_byte: "set (hex_byte b) \<subseteq> set HEXDIGIT"
  using hex_nibble_in [OF unat_byte_div [of b]] hex_nibble_in [of "unat b mod 16"]
  by (simp add: hex_byte_def)

lemma set_bytes_hex: "set (bytes_hex bs) \<subseteq> set HEXDIGIT"
  using set_hex_byte by (auto simp: bytes_hex_def)

text \<open>The hex string of a full group passes the name test of lines 104 and 116.\<close>

lemma media_name_hex:
  assumes "length s = 40" and "set s \<subseteq> set HEXDIGIT"
  shows "\<not> not_media_name s"
proof -
  from assms(1) obtain c cs where "s = c # cs" by (cases s) auto
  with assms(2) have "c \<in> set s" "c \<in> set HEXDIGIT" by auto
  then have "list_ex (\<lambda>c. c \<in> set HEXDIGIT) s" by (auto simp: list_ex_iff)
  with assms(1) show ?thesis by (simp add: not_media_name_def)
qed

subsection \<open>The chunks of an index\<close>

text \<open>
  The body of an index is some full groups of 20 bytes and a fragment of fewer than 20:
  each group gives its hex string, and a fragment that is not empty gives one more,
  shorter string.
\<close>

lemma mth_chunks_groups:
  "length pre = i \<Longrightarrow> \<forall>g\<in>set gs. length g = 20 \<Longrightarrow> length frag < 20 \<Longrightarrow>
   mth_chunks i (pre @ concat gs @ frag) =
     map bytes_hex gs @ (if frag = [] then [] else [bytes_hex frag])"
proof (induction gs arbitrary: pre i)
  case Nil
  show ?case
  proof (cases "frag = []")
    case True
    with Nil show ?thesis by (simp add: mth_chunks.simps)
  next
    case False
    with Nil show ?thesis
      by (simp add: mth_chunks.simps [of i] mth_chunks.simps [of "i + 20"])
  qed
next
  case (Cons g gs)
  from Cons.prems have g: "length g = 20" by simp
  have "mth_chunks (i + 20) ((pre @ g) @ concat gs @ frag) =
     map bytes_hex gs @ (if frag = [] then [] else [bytes_hex frag])"
    using Cons.prems g by (intro Cons.IH) simp_all
  then show ?case
    using Cons.prems g by (simp add: mth_chunks.simps [of i])
qed

lemma length_MTHS_HEADER: "length MTHS_HEADER = 6"
  by (simp add: MTHS_HEADER_def)

lemma iter_mth_groups:
  assumes "\<forall>g\<in>set gs. length g = 20" and "length frag < 20"
  shows "iter_mth (MTHS_HEADER @ concat gs @ frag) =
     Inr (map bytes_hex gs @ (if frag = [] then [] else [bytes_hex frag]))"
proof -
  have "take 6 (MTHS_HEADER @ concat gs @ frag) = MTHS_HEADER"
    by (simp add: length_MTHS_HEADER)
  moreover have "mth_chunks 6 (MTHS_HEADER @ concat gs @ frag) =
     map bytes_hex gs @ (if frag = [] then [] else [bytes_hex frag])"
    using assms by (intro mth_chunks_groups) (simp_all add: length_MTHS_HEADER)
  ultimately show ?thesis by (simp add: iter_mth_def)
qed

subsection \<open>The claims about the codec\<close>

text \<open>
  Claim C1, as the code has it. For an index made of the header, \<open>N\<close> full groups of 20
  bytes and a fragment of \<open>k\<close> bytes with \<open>0 < k < 20\<close>, \<open>iter_mth\<close> raises no error and
  yields \<open>N + 1\<close> strings: the hex strings of the \<open>N\<close> groups, each of 40 characters,
  and then one more, the hex string of the fragment, of \<open>2 * k\<close> characters. The
  fragment is not dropped.
\<close>

theorem iter_mth_trailing_fragment:
  assumes "\<forall>g\<in>set gs. length g = 20" and "0 < length frag" and "length frag < 20"
  shows "iter_mth (MTHS_HEADER @ concat gs @ frag) = Inr (map bytes_hex gs @ [bytes_hex frag])
    \<and> length (map bytes_hex gs @ [bytes_hex frag]) = length gs + 1
    \<and> (\<forall>g\<in>set gs. length (bytes_hex g) = 40)
    \<and> length (bytes_hex frag) = 2 * length frag"
  using iter_mth_groups [OF assms(1,3)] assms(1,2) by (auto simp: length_bytes_hex)

theorem iter_mth_trailing_fragment_witness:
  "length hash_1f = 20 \<and> 0 < length [0xAB :: byte] \<and> length [0xAB :: byte] < 20
   \<and> iter_mth (MTHS_HEADER @ concat [hash_1f] @ [0xAB]) =
       Inr (map bytes_hex [hash_1f] @ [bytes_hex [0xAB]])
   \<and> length (bytes_hex [0xAB]) = 2"
  using iter_mth_trailing_fragment [of "[hash_1f]" "[0xAB]"] by (simp add: hash_1f_def)

text \<open>
  The claim as the specification states it fails: after one full group and one more
  byte, two strings are yielded, not one, and the second is the hex of the single
  trailing byte.
\<close>

theorem iter_mth_trailing_counterexample:
  "iter_mth (MTHS_HEADER @ hash_1f @ [0xAB]) = Inr [name_1f, ''ab'']"
  by code_simp

text \<open>
  Claim C2. \<open>iter_mth\<close> raises its format error on every input whose first six bytes
  are not the header, in particular on every input shorter than six bytes (the empty
  one included), and then yields nothing; on an input that starts with the header it
  raises no error.
\<close>

theorem iter_mth_format_error:
  "(take 6 data \<noteq> MTHS_HEADER \<longrightarrow> iter_mth data = Inl (RuntimeError ''Invalid index.mth''))
   \<and> (length data < 6 \<longrightarrow> iter_mth data = Inl (RuntimeError ''Invalid index.mth''))
   \<and> (take 6 data = MTHS_HEADER \<longrightarrow> (\<exists>hashes. iter_mth data = Inr hashes))"
proof -
  have "take 6 data \<noteq> MTHS_HEADER" if "length data < 6"
  proof
    assume "take 6 data = MTHS_HEADER"
    then have "length (take 6 data) = 6" by (simp add: length_MTHS_HEADER)
    with that show False by simp
  qed
  then show ?thesis by (simp add: iter_mth_def)
qed

theorem iter_mth_format_error_witness:
  "take 6 [] \<noteq> MTHS_HEADER \<and> length ([] :: byte list) < 6
   \<and> iter_mth [] = Inl (RuntimeError ''Invalid index.mth'')
   \<and> take 6 [0x4D, 0x54, 0x48, 0x53, 0x01] \<noteq> MTHS_HEADER
   \<and> iter_mth [0x4D, 0x54, 0x48, 0x53, 0x01] = Inl (RuntimeError ''Invalid index.mth'')
   \<and> take 6 MTHS_HEADER = MTHS_HEADER \<and> (\<exists>hashes. iter_mth MTHS_HEADER = Inr hashes)"
  using iter_mth_format_error [of "[]"] iter_mth_format_error [of "[0x4D, 0x54, 0x48, 0x53, 0x01]"]
    iter_mth_format_error [of MTHS_HEADER]
  by (simp add: MTHS_HEADER_def)

text \<open>
  Claim C3. For every sequence of hashes of 20 bytes each, the empty one included,
  decoding the header followed by the hashes (the form in which lines 113--121 write an
  index) yields their hex strings in the same order, each of 40 characters taken from
  the lowercase hex digits.
\<close>

theorem iter_mth_round_trip:
  assumes "\<forall>g\<in>set hashes. length g = 20"
  shows "iter_mth (MTHS_HEADER @ concat hashes) = Inr (map bytes_hex hashes)
    \<and> (\<forall>s\<in>set (map bytes_hex hashes). length s = 40 \<and> set s \<subseteq> set HEXDIGIT)"
  using iter_mth_groups [OF assms, of "[]"] assms set_bytes_hex
  by (auto simp: length_bytes_hex)

theorem iter_mth_round_trip_witness:
  "length hash_1f = 20 \<and> length (replicate 20 (0xAB :: byte)) = 20
   \<and> iter_mth (MTHS_HEADER @ concat [hash_1f, replicate 20 0xAB]) =
       Inr [bytes_hex hash_1f, bytes_hex (replicate 20 0xAB)]
   \<and> iter_mth (MTHS_HEADER @ concat []) = Inr []"
  using iter_mth_round_trip [of "[hash_1f, replicate 20 0xAB]"] iter_mth_round_trip [of "[]"]
  by (simp add: hash_1f_def)

section \<open>Properties of a run\<close>

subsection \<open>The directory operations\<close>

lemma map_of_put_file: "map_of (put_file name content d) name = Some (File content)"
  by (induction d) auto

lemma write_file_Inr:
  "write_file name content d = Inr d' \<Longrightarrow> d' = put_file name content d"
  by (auto simp: write_file_def split: option.splits node.splits)

subsection \<open>One download\<close>

lemma download_Inr:
  "download m g h s = Inr s' \<Longrightarrow>
     list_files s' = list_files s \<and> found_count s' = found_count s \<and>
     to_download s' = to_download s @ [h] \<and> download_count s' = download_count s + 1 \<and>
     to_delete s' = to_delete s \<and> delete_count s' = delete_count s"
  by (auto simp: download_def Let_def split: sum.splits option.splits)

subsection \<open>The loop over the hashes\<close>

text \<open>The loop over a concatenation is the loop over its parts, one after the other.\<close>

lemma download_loop_append:
  "download_loop r m g (xs @ ys) s =
     (case download_loop r m g xs s of Inl e \<Rightarrow> Inl e | Inr s' \<Rightarrow> download_loop r m g ys s')"
  by (induction xs arbitrary: s) (auto simp: Let_def split: sum.splits)

text \<open>
  What one pass of the loop body does to the state, when it does not fail: the state
  before the download decision, and whether a download follows.
\<close>

lemma download_loop_Cons_Inr:
  assumes "download_loop r m g (h # hs) s = Inr s'"
  obtains s2 where
    "download_loop r m g hs s2 = Inr s'"
    "found_count s2 = found_count s + 1"
    "to_delete s2 = to_delete s" "delete_count s2 = delete_count s"
    "list_files s2 = (if h \<in> set (list_files s) then remove1 h (list_files s) else list_files s)"
    "to_download s2 = (if h \<in> set (list_files s) \<and> \<not> r then to_download s else to_download s @ [h])"
    "download_count s2 = (if h \<in> set (list_files s) \<and> \<not> r then download_count s
                          else download_count s + 1)"
proof (cases "h \<in> set (list_files s) \<and> \<not> r")
  case True
  let ?s2 = "s\<lparr>found_count := found_count s + 1, list_files := remove1 h (list_files s)\<rparr>"
  from assms True have "download_loop r m g hs ?s2 = Inr s'"
    by (simp add: Let_def)
  then show ?thesis using True by (intro that [of ?s2]) simp_all
next
  case False
  let ?s2 = "(if h \<in> set (list_files s)
              then s\<lparr>found_count := found_count s + 1, list_files := remove1 h (list_files s)\<rparr>
              else s\<lparr>found_count := found_count s + 1\<rparr>)"
  from assms False obtain s3 where
    d: "download m g h ?s2 = Inr s3" and l: "download_loop r m g hs s3 = Inr s'"
    by (auto simp: Let_def split: sum.splits if_splits)
  from download_Inr [OF d] l False show ?thesis
    by (intro that [of s3]) (auto split: if_splits)
qed

lemma download_loop_Inr:
  "download_loop r m g hs s = Inr s' \<Longrightarrow>
     found_count s' = found_count s + length hs \<and>
     to_delete s' = to_delete s \<and> delete_count s' = delete_count s \<and>
     (\<exists>D. to_download s' = to_download s @ D \<and>
          download_count s' = download_count s + length D \<and> set D \<subseteq> set hs)"
proof (induction hs arbitrary: s)
  case Nil
  then show ?case by simp
next
  case (Cons h hs)
  from Cons.prems obtain s2 where s2:
    "download_loop r m g hs s2 = Inr s'"
    "found_count s2 = found_count s + 1"
    "to_delete s2 = to_delete s" "delete_count s2 = delete_count s"
    "to_download s2 = (if h \<in> set (list_files s) \<and> \<not> r then to_download s else to_download s @ [h])"
    "download_count s2 = (if h \<in> set (list_files s) \<and> \<not> r then download_count s
                          else download_count s + 1)"
    by (rule download_loop_Cons_Inr)
  from Cons.IH [OF s2(1)] obtain D where D:
    "found_count s' = found_count s2 + length hs"
    "to_delete s' = to_delete s2" "delete_count s' = delete_count s2"
    "to_download s' = to_download s2 @ D"
    "download_count s' = download_count s2 + length D" "set D \<subseteq> set hs"
    by blast
  show ?case
  proof (cases "h \<in> set (list_files s) \<and> \<not> r")
    case True
    with s2 D show ?thesis by (intro conjI exI [of _ D]) auto
  next
    case False
    with s2 D show ?thesis by (intro conjI exI [of _ "h # D"]) auto
  qed
qed

text \<open>
  The loop only takes names out of \<^verbatim>\<open>list_files\<close>, and only names that are hashes of
  the index.
\<close>

lemma download_loop_list_files:
  "download_loop r m g hs s = Inr s' \<Longrightarrow>
     set (list_files s') \<subseteq> set (list_files s) \<and>
     (distinct (list_files s) \<longrightarrow> distinct (list_files s')) \<and>
     (\<forall>n. n \<notin> set hs \<longrightarrow> (n \<in> set (list_files s') \<longleftrightarrow> n \<in> set (list_files s)))"
proof (induction hs arbitrary: s)
  case Nil
  then show ?case by simp
next
  case (Cons h hs)
  from Cons.prems obtain s2 where s2:
    "download_loop r m g hs s2 = Inr s'"
    "list_files s2 = (if h \<in> set (list_files s) then remove1 h (list_files s) else list_files s)"
    by (rule download_loop_Cons_Inr)
  have sub: "set (list_files s2) \<subseteq> set (list_files s)"
    using s2(2) set_remove1_subset [of h "list_files s"] by (simp split: if_splits)
  have dis: "distinct (list_files s) \<longrightarrow> distinct (list_files s2)"
    using s2(2) by (simp split: if_splits)
  have other: "n \<in> set (list_files s2) \<longleftrightarrow> n \<in> set (list_files s)" if "n \<noteq> h" for n
    using s2(2) that by (simp split: if_splits)
  from Cons.IH [OF s2(1)] sub dis other show ?case by auto
qed

text \<open>
  With distinct names in \<^verbatim>\<open>list_files\<close>, no name that was downloaded is left there.
\<close>

lemma download_loop_disjoint:
  "download_loop r m g hs s = Inr s' \<Longrightarrow> distinct (list_files s) \<Longrightarrow>
   set (to_download s) \<inter> set (list_files s) = {} \<Longrightarrow>
   set (to_download s') \<inter> set (list_files s') = {}"
proof (induction hs arbitrary: s)
  case Nil
  then show ?case by simp
next
  case (Cons h hs)
  from Cons.prems(1) obtain s2 where s2:
    "download_loop r m g hs s2 = Inr s'"
    "list_files s2 = (if h \<in> set (list_files s) then remove1 h (list_files s) else list_files s)"
    "to_download s2 = (if h \<in> set (list_files s) \<and> \<not> r then to_download s else to_download s @ [h])"
    by (rule download_loop_Cons_Inr)
  have dis: "distinct (list_files s2)"
    using s2(2) Cons.prems(2) by (simp split: if_splits)
  have h: "h \<notin> set (list_files s2)"
    using s2(2) Cons.prems(2) by (simp split: if_splits)
  have sub: "set (list_files s2) \<subseteq> set (list_files s)"
    using s2(2) set_remove1_subset [of h "list_files s"] by (simp split: if_splits)
  have "set (to_download s2) \<inter> set (list_files s2) = {}"
    using s2(3) h sub Cons.prems(3) by (auto split: if_splits)
  with Cons.IH [OF s2(1) dis] show ?case .
qed

subsection \<open>The loop over the names that are left\<close>

lemma delete_loop_Inr:
  "delete_loop ns s = Inr s' \<Longrightarrow>
     to_delete s' = to_delete s @ filter (\<lambda>n. \<not> not_media_name n) ns \<and>
     delete_count s' = delete_count s + length (filter (\<lambda>n. \<not> not_media_name n) ns) \<and>
     to_download s' = to_download s \<and> list_files s' = list_files s \<and>
     found_count s' = found_count s \<and> download_count s' = download_count s"
proof (induction ns arbitrary: s)
  case Nil
  then show ?case by simp
next
  case (Cons n ns)
  show ?case
  proof (cases "not_media_name n")
    case True
    with Cons.prems have "delete_loop ns s = Inr s'" by simp
    from Cons.IH [OF this] True show ?thesis by simp
  next
    case False
    with Cons.prems obtain d where
      "delete_loop ns (s\<lparr>delete_count := delete_count s + 1,
          to_delete := to_delete s @ [n], dir := d\<rparr>) = Inr s'"
      by (auto simp: Let_def split: sum.splits)
    from Cons.IH [OF this] False show ?thesis by simp
  qed
qed

subsection \<open>The whole run\<close>

text \<open>A run that ends normally went through each of its stages.\<close>

lemma main_InrE:
  assumes "main delete generate redownload media_index destination post get sha1 = Inr r"
  obtains mth_bytes hashes s1 d2 where
    "post (base_url media_index @ ''index.mth'') = Some mth_bytes"
    "iter_mth mth_bytes = Inr hashes"
    "download_loop redownload (base_url media_index) get hashes
       \<lparr>dir = destination, list_files = os_listdir destination,
        found_count = 0, download_count = 0, delete_count = 0,
        to_download = [], to_delete = []\<rparr> = Inr s1"
    "list_files r = list_files s1" "to_download r = to_download s1"
    "found_count r = found_count s1" "download_count r = download_count s1"
    "to_delete r = to_delete s1 @
       (if delete then filter (\<lambda>n. \<not> not_media_name n) (list_files s1) else [])"
    "delete_count r = delete_count s1 +
       (if delete then length (filter (\<lambda>n. \<not> not_media_name n) (list_files s1)) else 0)"
    "(if generate then generate_index sha1 d2 else write_file ''index.mth'' mth_bytes d2)
       = Inr (dir r)"
proof -
  from assms obtain mth_bytes where p: "post (base_url media_index @ ''index.mth'') = Some mth_bytes"
    by (auto simp: main_def split: if_splits option.splits)
  from assms p obtain hashes where i: "iter_mth mth_bytes = Inr hashes"
    by (auto simp: main_def split: if_splits sum.splits)
  from assms p i obtain s1 where l: "download_loop redownload (base_url media_index) get hashes
       \<lparr>dir = destination, list_files = os_listdir destination,
        found_count = 0, download_count = 0, delete_count = 0,
        to_download = [], to_delete = []\<rparr> = Inr s1"
    by (auto simp: main_def split: if_splits sum.splits)
  from assms p i l obtain s2 where
    d: "(if delete then delete_loop (list_files s1) s1 else Inr s1) = Inr s2"
    by (simp add: main_def split: if_splits sum.splits)
  from assms p i l d obtain d' where
    w: "(if generate then generate_index sha1 (dir s2)
         else write_file ''index.mth'' mth_bytes (dir s2)) = Inr d'" and r: "r = s2\<lparr>dir := d'\<rparr>"
    by (simp add: main_def split: if_splits sum.splits)
  have s2: "to_delete s2 = to_delete s1 @
       (if delete then filter (\<lambda>n. \<not> not_media_name n) (list_files s1) else [])
     \<and> delete_count s2 = delete_count s1 +
       (if delete then length (filter (\<lambda>n. \<not> not_media_name n) (list_files s1)) else 0)
     \<and> to_download s2 = to_download s1 \<and> list_files s2 = list_files s1
     \<and> found_count s2 = found_count s1 \<and> download_count s2 = download_count s1"
  proof (cases delete)
    case True
    with d have "delete_loop (list_files s1) s1 = Inr s2" by simp
    from delete_loop_Inr [OF this] True show ?thesis by simp
  next
    case False
    with d show ?thesis by simp
  qed
  show ?thesis
    using p i l s2 w r by (intro that [of mth_bytes hashes s1 "dir s2"]) simp_all
qed

lemma download_loop_append_Inr:
  assumes "download_loop r m g (xs @ ys) s = Inr s'"
  obtains sm where "download_loop r m g xs s = Inr sm" "download_loop r m g ys sm = Inr s'"
  using assms by (auto simp: download_loop_append split: sum.splits)

text \<open>The state the loop of \<^verbatim>\<open>main\<close> starts from has nothing scheduled.\<close>

lemma main_loop_Inr:
  assumes "download_loop r m g hs
       \<lparr>dir = destination, list_files = os_listdir destination,
        found_count = 0, download_count = 0, delete_count = 0,
        to_download = [], to_delete = []\<rparr> = Inr s1"
  shows "found_count s1 = length hs" "to_delete s1 = []" "delete_count s1 = 0"
    "download_count s1 = length (to_download s1)" "set (to_download s1) \<subseteq> set hs"
  using download_loop_Inr [OF assms] by auto

subsection \<open>The generated index\<close>

lemma not_media_name_index: "not_media_name ''index.mth''"
  by (simp add: not_media_name_def)

lemma hash_entries_concat:
  "hash_entries sha1 d = concat (map sha1 [c. (n, File c) \<leftarrow> d, \<not> not_media_name n])"
proof (induction d)
  case Nil
  show ?case by simp
next
  case (Cons e d)
  obtain n nd where e: "e = (n, nd)" by (cases e)
  show ?case using Cons.IH by (cases nd) (simp_all add: e)
qed

lemma selected_put_file:
  "not_media_name name \<Longrightarrow>
   [c. (n, File c) \<leftarrow> put_file name content d, \<not> not_media_name n] =
   [c. (n, File c) \<leftarrow> d, \<not> not_media_name n]"
proof (induction d)
  case Nil
  then show ?case by simp
next
  case (Cons e d)
  obtain n nd where e: "e = (n, nd)" by (cases e)
  show ?case using Cons by (cases nd) (simp_all add: e)
qed

lemma generate_index_Inr:
  assumes "generate_index sha1 d = Inr d'"
  shows "map_of d' ''index.mth'' =
      Some (File (MTHS_HEADER @ concat (map sha1 [c. (n, File c) \<leftarrow> d', \<not> not_media_name n])))"
proof -
  let ?d1 = "put_file ''index.mth'' MTHS_HEADER d"
  from assms have d': "d' = put_file ''index.mth'' (MTHS_HEADER @ hash_entries sha1 ?d1) ?d1"
    by (auto simp: generate_index_def split: sum.splits dest: write_file_Inr)
  have "[c. (n, File c) \<leftarrow> d', \<not> not_media_name n] = [c. (n, File c) \<leftarrow> ?d1, \<not> not_media_name n]"
    unfolding d' by (rule selected_put_file [OF not_media_name_index])
  then show ?thesis
    by (simp add: d' map_of_put_file hash_entries_concat)
qed


lemma length_concat_groups:
  "\<forall>g\<in>set gs. length g = 20 \<Longrightarrow> length (concat gs) = 20 * length gs"
  by (induction gs) simp_all

subsection \<open>Names that fail the name test\<close>

text \<open>Any byte string is some groups of 20 bytes and a rest of fewer than 20.\<close>

lemma split_groups:
  "\<exists>gs frag. xs = concat gs @ frag \<and> (\<forall>g\<in>set gs. length g = 20) \<and> length frag < 20"
proof (induction "length xs" arbitrary: xs rule: less_induct)
  case less
  show ?case
  proof (cases "length xs < 20")
    case True
    then have "xs = concat [] @ xs \<and> (\<forall>g\<in>set []. length g = 20) \<and> length xs < 20"
      by simp
    then show ?thesis by blast
  next
    case False
    then have "length (drop 20 xs) < length xs" by simp
    from less [OF this] obtain gs frag where
      r: "drop 20 xs = concat gs @ frag" "\<forall>g\<in>set gs. length g = 20" "length frag < 20"
      by blast
    have "xs = take 20 xs @ drop 20 xs" by simp
    with r(1) have "xs = concat (take 20 xs # gs) @ frag" by simp
    moreover from False r(2) have "\<forall>g\<in>set (take 20 xs # gs). length g = 20" by simp
    ultimately show ?thesis using r(3) by blast
  qed
qed

text \<open>An index that decodes is the header, some groups and a fragment.\<close>

lemma iter_mth_InrE:
  assumes "iter_mth mth_bytes = Inr hashes"
  obtains gs frag where
    "mth_bytes = MTHS_HEADER @ concat gs @ frag"
    "\<forall>g\<in>set gs. length g = 20" "length frag < 20"
    "hashes = map bytes_hex gs @ (if frag = [] then [] else [bytes_hex frag])"
    "(length mth_bytes - 6) mod 20 = length frag"
proof -
  from assms have hdr: "take 6 mth_bytes = MTHS_HEADER"
    by (auto simp: iter_mth_def split: if_splits)
  from split_groups [of "drop 6 mth_bytes"] obtain gs frag where
    r: "drop 6 mth_bytes = concat gs @ frag" "\<forall>g\<in>set gs. length g = 20" "length frag < 20"
    by blast
  have "mth_bytes = take 6 mth_bytes @ drop 6 mth_bytes" by simp
  with hdr r(1) have m: "mth_bytes = MTHS_HEADER @ concat gs @ frag" by simp
  from iter_mth_groups [OF r(2,3)] assms
  have h: "hashes = map bytes_hex gs @ (if frag = [] then [] else [bytes_hex frag])"
    unfolding m by simp
  have "length mth_bytes - 6 = 20 * length gs + length frag"
    unfolding m using length_concat_groups [OF r(2)] by (simp add: length_MTHS_HEADER)
  with r(3) have "(length mth_bytes - 6) mod 20 = length frag" by simp
  with m r(2,3) h show ?thesis by (rule that)
qed

lemma delete_loop_append:
  "delete_loop (xs @ ys) s =
     (case delete_loop xs s of Inl e \<Rightarrow> Inl e | Inr s' \<Rightarrow> delete_loop ys s')"
  by (induction xs arbitrary: s) (auto simp: Let_def split: sum.splits)

text \<open>
  Let \<open>n\<close> fail the name test and be in \<^verbatim>\<open>list_files\<close> when the loop starts with
  nothing scheduled. After any number \<open>k\<close> of hashes, \<open>n\<close> has been downloaded only
  if \<^verbatim>\<open>redownload\<close> is on and \<open>n\<close> is the hex string of the fragment the index ends
  in; and if \<open>n\<close> is the hash that comes next, it is that hex string and still in
  \<^verbatim>\<open>list_files\<close>.
\<close>

lemma foreign_name_in_loop:
  assumes dec: "iter_mth mth_bytes = Inr hashes"
    and foreign: "not_media_name n"
    and local: "n \<in> set (list_files s0)"
    and none: "to_download s0 = []"
    and pre: "download_loop r m g (take k hashes) s0 = Inr s"
  shows "n \<in> set (to_download s) \<Longrightarrow>
      r \<and> (\<exists>gs frag. mth_bytes = MTHS_HEADER @ concat gs @ frag
            \<and> (\<forall>g\<in>set gs. length g = 20) \<and> 0 < length frag \<and> length frag < 20
            \<and> (length mth_bytes - 6) mod 20 = length frag \<and> n = bytes_hex frag)"
    and "k < length hashes \<Longrightarrow> hashes ! k = n \<Longrightarrow>
      n \<in> set (list_files s) \<and>
      (\<exists>gs frag. mth_bytes = MTHS_HEADER @ concat gs @ frag
            \<and> (\<forall>g\<in>set gs. length g = 20) \<and> 0 < length frag \<and> length frag < 20
            \<and> (length mth_bytes - 6) mod 20 = length frag \<and> n = bytes_hex frag)"
proof -
  from dec obtain gs frag where
    m: "mth_bytes = MTHS_HEADER @ concat gs @ frag" and
    gs: "\<forall>g\<in>set gs. length g = 20" and frag: "length frag < 20" and
    h: "hashes = map bytes_hex gs @ (if frag = [] then [] else [bytes_hex frag])" and
    md: "(length mth_bytes - 6) mod 20 = length frag"
    by (rule iter_mth_InrE)
  let ?xs = "map bytes_hex gs"
  have nxs: "n \<notin> set ?xs"
  proof
    assume "n \<in> set ?xs"
    then obtain g where "g \<in> set gs" "n = bytes_hex g" by auto
    with gs have "length n = 40" "set n \<subseteq> set HEXDIGIT"
      using set_bytes_hex [of g] by (simp_all add: length_bytes_hex)
    from media_name_hex [OF this] foreign show False by simp
  qed
  have FR: "\<exists>gs frag. mth_bytes = MTHS_HEADER @ concat gs @ frag
            \<and> (\<forall>g\<in>set gs. length g = 20) \<and> 0 < length frag \<and> length frag < 20
            \<and> (length mth_bytes - 6) mod 20 = length frag \<and> n = bytes_hex frag"
    if "n \<in> set hashes"
  proof -
    from that nxs h have "frag \<noteq> []" "n = bytes_hex frag" by (auto split: if_splits)
    with m gs frag md show ?thesis by (intro exI [of _ gs] exI [of _ frag]) simp
  qed
  from download_loop_Inr [OF pre] none
  have sub: "set (to_download s) \<subseteq> set (take k hashes)" by auto
  have early: "n \<notin> set (to_download s) \<and> n \<in> set (list_files s)" if "k \<le> length ?xs"
  proof -
    from that h have "take k hashes = take k ?xs" by simp
    with nxs have "n \<notin> set (take k hashes)" by (auto dest: in_set_takeD)
    with sub download_loop_list_files [OF pre] local show ?thesis by auto
  qed
  {
    assume dl: "n \<in> set (to_download s)"
    have k: "length ?xs < k"
    proof (rule ccontr)
      assume "\<not> length ?xs < k"
      then have "k \<le> length ?xs" by simp
      from early [OF this] dl show False by simp
    qed
    from dl sub have inh: "n \<in> set hashes" by (auto dest: in_set_takeD)
    with nxs h have hn: "hashes = ?xs @ [n]" by (auto split: if_splits)
    with k have tk: "take k hashes = ?xs @ [n]" by simp
    have r
    proof (rule ccontr)
      assume nr: "\<not> r"
      from pre obtain sa where
        a: "download_loop r m g ?xs s0 = Inr sa" and
        b: "download_loop r m g [n] sa = Inr s"
        unfolding tk by (rule download_loop_append_Inr)
      from download_loop_Inr [OF a] none nxs have na: "n \<notin> set (to_download sa)" by auto
      from download_loop_list_files [OF a] nxs local have la: "n \<in> set (list_files sa)"
        by simp
      from b obtain s2 where
        "download_loop r m g [] s2 = Inr s"
        "to_download s2 = (if n \<in> set (list_files sa) \<and> \<not> r
                           then to_download sa else to_download sa @ [n])"
        by (rule download_loop_Cons_Inr)
      with na la nr have "n \<notin> set (to_download s)" by simp
      with dl show False by simp
    qed
    with FR [OF inh] show "r \<and> (\<exists>gs frag. mth_bytes = MTHS_HEADER @ concat gs @ frag
            \<and> (\<forall>g\<in>set gs. length g = 20) \<and> 0 < length frag \<and> length frag < 20
            \<and> (length mth_bytes - 6) mod 20 = length frag \<and> n = bytes_hex frag)"
      by simp
  }
  {
    assume k: "k < length hashes" and nk: "hashes ! k = n"
    then have inh: "n \<in> set hashes" by (auto simp: in_set_conv_nth)
    have "k \<le> length ?xs"
    proof (rule ccontr)
      assume "\<not> k \<le> length ?xs"
      with k h show False by (simp split: if_splits)
    qed
    from early [OF this] FR [OF inh]
    show "n \<in> set (list_files s) \<and>
      (\<exists>gs frag. mth_bytes = MTHS_HEADER @ concat gs @ frag
            \<and> (\<forall>g\<in>set gs. length g = 20) \<and> 0 < length frag \<and> length frag < 20
            \<and> (length mth_bytes - 6) mod 20 = length frag \<and> n = bytes_hex frag)"
      by simp
  }
qed

text \<open>A step of the loop that fails is a step that goes on to the download.\<close>

lemma download_loop_step_Inl:
  assumes "download_loop r m g (take k hashes) s0 = Inr s"
    and "download_loop r m g (take (Suc k) hashes) s0 = Inl e"
  shows "k < length hashes" and "\<not> (hashes ! k \<in> set (list_files s) \<and> \<not> r)"
proof -
  show k: "k < length hashes"
  proof (rule ccontr)
    assume "\<not> k < length hashes"
    then have "take (Suc k) hashes = take k hashes" by simp
    with assms show False by simp
  qed
  then have "take (Suc k) hashes = take k hashes @ [hashes ! k]"
    by (rule take_Suc_conv_app_nth)
  with assms have "download_loop r m g [hashes ! k] s = Inl e"
    by (simp add: download_loop_append)
  then show "\<not> (hashes ! k \<in> set (list_files s) \<and> \<not> r)"
    by (auto simp: Let_def split: if_splits)
qed

text \<open>A name on which the deletion loop fails has passed the name test.\<close>

lemma delete_loop_step_Inl:
  assumes "delete_loop (take j ns) s1 = Inr s2"
    and "delete_loop (take (Suc j) ns) s1 = Inl e"
  shows "j < length ns" and "\<not> not_media_name (ns ! j)"
proof -
  show j: "j < length ns"
  proof (rule ccontr)
    assume "\<not> j < length ns"
    then have "take (Suc j) ns = take j ns" by simp
    with assms show False by simp
  qed
  then have "take (Suc j) ns = take j ns @ [ns ! j]"
    by (rule take_Suc_conv_app_nth)
  with assms have "delete_loop [ns ! j] s2 = Inl e"
    by (simp add: delete_loop_append)
  then show "\<not> not_media_name (ns ! j)"
    by (auto split: if_splits)
qed

subsection \<open>Three runs on the example inputs\<close>

text \<open>
  Deletion on, the remote index kept, no forced download; the index names the same
  hash twice.
\<close>

lemma example_run_duplicate:
  "main True False False ''http://s'' example_dir
     (example_post (MTHS_HEADER @ hash_1f @ hash_1f)) example_get zero_digest
   = Inr \<lparr>dir = [(name_1f, File [1, 2, 3]), (''notes.txt'', File [9]), (''sub'', Dir),
                 (''index.mth'', File (MTHS_HEADER @ hash_1f @ hash_1f))],
          list_files = [name_cc, ''notes.txt'', ''sub''],
          found_count = 2, download_count = 1, delete_count = 1,
          to_download = [name_1f], to_delete = [name_cc]\<rparr>"
  by code_simp

text \<open>Deletion on, the index generated, every hash downloaded again.\<close>

lemma example_run_generate:
  "main True True True ''http://s/'' example_dir
     (example_post (MTHS_HEADER @ hash_1f)) example_get zero_digest
   = Inr \<lparr>dir = [(name_1f, File [1, 2, 3]), (''notes.txt'', File [9]), (''sub'', Dir),
                 (''index.mth'', File (MTHS_HEADER @ replicate 20 0))],
          list_files = [name_cc, ''notes.txt'', ''sub''],
          found_count = 1, download_count = 1, delete_count = 1,
          to_download = [name_1f], to_delete = [name_cc]\<rparr>"
  by code_simp

text \<open>All flags off; the remote index ends in a fragment of one byte.\<close>

lemma example_run_fragment:
  "main False False False ''http://s/'' example_dir
     (example_post (MTHS_HEADER @ hash_1f @ [0xAB])) example_get zero_digest
   = Inr \<lparr>dir = [(name_1f, File [7]), (name_cc, File [8]), (''notes.txt'', File [9]),
                 (''sub'', Dir), (''ab'', File [4]),
                 (''index.mth'', File (MTHS_HEADER @ hash_1f @ [0xAB]))],
          list_files = [name_cc, ''notes.txt'', ''sub''],
          found_count = 2, download_count = 1, delete_count = 0,
          to_download = [''ab''], to_delete = []\<rparr>"
  by code_simp

lemma example_post_index:
  "example_post mth_bytes (base_url ''http://s'' @ ''index.mth'') = Some mth_bytes"
  "example_post mth_bytes (base_url ''http://s/'' @ ''index.mth'') = Some mth_bytes"
  by (simp_all add: example_post_def base_url_def)

lemma example_dir_names:
  "os_listdir example_dir = [name_1f, name_cc, ''notes.txt'', ''sub'']"
  by (simp add: os_listdir_def example_dir_def)

lemma distinct_example_dir: "distinct (os_listdir example_dir)"
  by (simp add: example_dir_names name_1f_def name_cc_def)

lemma iter_mth_example_duplicate:
  "iter_mth (MTHS_HEADER @ hash_1f @ hash_1f) = Inr ([] @ name_1f # [] @ name_1f # [])"
  by code_simp

text \<open>
  Redownload on; the index ends in the single byte \<open>AB\<close> and the destination holds
  a file named \<open>ab\<close>.
\<close>

lemma example_run_short_name:
  "main True False True ''http://s/'' [(''ab'', File [])]
     (example_post (MTHS_HEADER @ [0xAB])) example_get zero_digest
   = Inr \<lparr>dir = [(''ab'', File [4]), (''index.mth'', File (MTHS_HEADER @ [0xAB]))],
          list_files = [], found_count = 1, download_count = 1, delete_count = 0,
          to_download = [''ab''], to_delete = []\<rparr>"
  by code_simp

text \<open>A download that fails: the server does not answer the request for the hash.\<close>

lemma example_loop_fails:
  "download_loop False (base_url ''http://s/'') example_get
     (take (Suc 0) [''abababababababababababababababababababab''])
     \<lparr>dir = example_dir, list_files = os_listdir example_dir,
      found_count = 0, download_count = 0, delete_count = 0,
      to_download = [], to_delete = []\<rparr>
   = Inl (TransportError ''http://s/abababababababababababababababababababab'')"
  by code_simp

text \<open>A removal that fails: the first name left is that of a directory.\<close>

lemma example_delete_fails:
  "delete_loop
     (take (Suc 0) [''aaaaaaaaaaaaaaaaaaaaaaaaaaaaaaaaaaaaaaaa'', ''notes.txt''])
     \<lparr>dir = [(''aaaaaaaaaaaaaaaaaaaaaaaaaaaaaaaaaaaaaaaa'', Dir), (''notes.txt'', File [9])],
      list_files = [''aaaaaaaaaaaaaaaaaaaaaaaaaaaaaaaaaaaaaaaa'', ''notes.txt''],
      found_count = 0, download_count = 0, delete_count = 0,
      to_download = [], to_delete = []\<rparr>
   = Inl (IsADirectoryError ''aaaaaaaaaaaaaaaaaaaaaaaaaaaaaaaaaaaaaaaa'')"
  by code_simp

lemma iter_mth_examples:
  "iter_mth (MTHS_HEADER @ hash_1f @ [0xAB]) = Inr [name_1f, ''ab'']"
  "iter_mth (MTHS_HEADER @ replicate 20 0xAB) = Inr [''abababababababababababababababababababab'']"
  "iter_mth MTHS_HEADER = Inr []"
  "iter_mth (MTHS_HEADER @ [0xAB]) = Inr [''ab'']"
  by code_simp+


section \<open>The claims about a run\<close>

text \<open>
  Claim C4, a defect of the code. The deletion loop of lines 103--108 tests only the
  name; unlike the scan of line 116 it does not ask whether the entry is a regular
  file. With an empty remote index and a destination that holds one directory whose
  name has 40 characters, the run passes the directory to \<^verbatim>\<open>os.remove\<close> and ends in
  its error.
\<close>

theorem delete_loop_removes_directory:
  "main True False False ''http://s/''
     [(''aaaaaaaaaaaaaaaaaaaaaaaaaaaaaaaaaaaaaaaa'', Dir)]
     (map_of [(''http://s/index.mth'', MTHS_HEADER)]) (map_of []) zero_digest
   = Inl (IsADirectoryError ''aaaaaaaaaaaaaaaaaaaaaaaaaaaaaaaaaaaaaaaa'')"
  by code_simp

text \<open>
  Claim C5, as the code has it. Let \<open>n\<close> be a name of the destination directory that
  fails the name test (its length is not 40, or it has no hex digit). In every run,
  whatever the flags, \<open>n\<close> is never passed to \<^verbatim>\<open>os.remove\<close>, and \<open>n\<close> is downloaded
  only if \<^verbatim>\<open>redownload\<close> is on and the fetched index ends in a fragment of fewer than
  20 bytes whose hex string is \<open>n\<close>. This holds for the result of a run that ends
  normally, and for what a run that ends in an error has done by then: when the error
  comes in the loop over the hashes, for the downloads made so far and the one that
  fails; afterwards, for the downloads of the loop and the removals made so far, and the
  name on which a removal fails is not \<open>n\<close>. (A run that ends before the loop, because
  the request for the index fails or \<^verbatim>\<open>iter_mth\<close> raises, has done nothing.)
\<close>

theorem foreign_names_untouched:
  fixes mth_bytes :: "byte list" and n :: string and destination :: directory
  defines "fragment \<equiv> (\<exists>gs frag. mth_bytes = MTHS_HEADER @ concat gs @ frag
            \<and> (\<forall>g\<in>set gs. length g = 20) \<and> 0 < length frag \<and> length frag < 20
            \<and> (length mth_bytes - 6) mod 20 = length frag \<and> n = bytes_hex frag)"
    and "s0 \<equiv> \<lparr>dir = destination, list_files = os_listdir destination,
                found_count = 0, download_count = 0, delete_count = 0,
                to_download = [], to_delete = []\<rparr>"
  assumes fetched: "post (base_url media_index @ ''index.mth'') = Some mth_bytes"
    and decoded: "iter_mth mth_bytes = Inr hashes"
    and local: "n \<in> set (os_listdir destination)"
    and foreign: "not_media_name n"
  shows
    "(\<forall>r. main delete generate redownload media_index destination post get sha1 = Inr r \<longrightarrow>
        n \<notin> set (to_delete r) \<and> (n \<in> set (to_download r) \<longrightarrow> redownload \<and> fragment))
   \<and> (\<forall>k s e.
        download_loop redownload (base_url media_index) get (take k hashes) s0 = Inr s \<and>
        download_loop redownload (base_url media_index) get (take (Suc k) hashes) s0 = Inl e \<longrightarrow>
        to_delete s = [] \<and>
        (n \<in> set (to_download s @ [hashes ! k]) \<longrightarrow> redownload \<and> fragment))
   \<and> (\<forall>s1 j s2.
        download_loop redownload (base_url media_index) get hashes s0 = Inr s1 \<and>
        delete_loop (take j (list_files s1)) s1 = Inr s2 \<longrightarrow>
        n \<notin> set (to_delete s2) \<and>
        (n \<in> set (to_download s2) \<longrightarrow> redownload \<and> fragment) \<and>
        (\<forall>e. delete_loop (take (Suc j) (list_files s1)) s1 = Inl e \<longrightarrow>
             list_files s1 ! j \<noteq> n))"
proof -
  let ?loop = "download_loop redownload (base_url media_index) get"
  have s0: "n \<in> set (list_files s0)" "to_download s0 = []" "to_delete s0 = []"
    using local by (simp_all add: s0_def)
  have prefix: "n \<in> set (to_download s) \<longrightarrow> redownload \<and> fragment"
    if "?loop (take k hashes) s0 = Inr s" for k s
    using foreign_name_in_loop(1) [OF decoded foreign s0(1,2) that]
    unfolding fragment_def by blast
  have whole: "n \<in> set (to_download s1) \<longrightarrow> redownload \<and> fragment"
    if "?loop hashes s0 = Inr s1" for s1
    using prefix [of "length hashes" s1] that by simp
  have completed: "n \<notin> set (to_delete r) \<and> (n \<in> set (to_download r) \<longrightarrow> redownload \<and> fragment)"
    if run: "main delete generate redownload media_index destination post get sha1 = Inr r"
    for r
  proof -
    from run fetched decoded obtain s1 where
      loop: "?loop hashes s0 = Inr s1" and
      r: "to_download r = to_download s1"
         "to_delete r = to_delete s1 @
           (if delete then filter (\<lambda>n. \<not> not_media_name n) (list_files s1) else [])"
      unfolding s0_def by (auto elim!: main_InrE)
    from download_loop_Inr [OF loop] s0(3) have "to_delete s1 = []" by simp
    with r(2) foreign have "n \<notin> set (to_delete r)" by simp
    with whole [OF loop] r(1) show ?thesis by simp
  qed
  have in_loop: "to_delete s = [] \<and>
      (n \<in> set (to_download s @ [hashes ! k]) \<longrightarrow> redownload \<and> fragment)"
    if a: "?loop (take k hashes) s0 = Inr s" and b: "?loop (take (Suc k) hashes) s0 = Inl e"
    for k s e
  proof -
    from download_loop_Inr [OF a] s0(3) have d: "to_delete s = []" by simp
    have "redownload \<and> fragment" if nk: "hashes ! k = n"
    proof -
      from download_loop_step_Inl [OF a b]
      have k: "k < length hashes" and go: "\<not> (hashes ! k \<in> set (list_files s) \<and> \<not> redownload)"
        by simp_all
      from foreign_name_in_loop(2) [OF decoded foreign s0(1,2) a k nk]
      have "n \<in> set (list_files s)" and fragment
        unfolding fragment_def by blast+
      with go nk show ?thesis by simp
    qed
    with prefix [OF a] d show ?thesis by auto
  qed
  have later: "n \<notin> set (to_delete s2) \<and>
      (n \<in> set (to_download s2) \<longrightarrow> redownload \<and> fragment) \<and>
      (\<forall>e. delete_loop (take (Suc j) (list_files s1)) s1 = Inl e \<longrightarrow> list_files s1 ! j \<noteq> n)"
    if loop: "?loop hashes s0 = Inr s1" and del: "delete_loop (take j (list_files s1)) s1 = Inr s2"
    for s1 j s2
  proof -
    from download_loop_Inr [OF loop] s0(3) have "to_delete s1 = []" by simp
    with delete_loop_Inr [OF del] foreign
    have d: "n \<notin> set (to_delete s2)" and t: "to_download s2 = to_download s1" by simp_all
    have "list_files s1 ! j \<noteq> n"
      if "delete_loop (take (Suc j) (list_files s1)) s1 = Inl e" for e
      using delete_loop_step_Inl(2) [OF del that] foreign by auto
    with d t whole [OF loop] show ?thesis by simp
  qed
  from completed in_loop later show ?thesis by blast
qed


text \<open>
  The claim as the specification states it fails: with \<^verbatim>\<open>redownload\<close> on and an index
  that ends in the single byte \<open>AB\<close>, the local file \<open>ab\<close>, whose name has two
  characters, is downloaded again and overwritten.
\<close>

theorem foreign_name_downloaded_counterexample:
  "main True False True ''http://s/'' [(''ab'', File [])]
     (map_of [(''http://s/index.mth'', MTHS_HEADER @ [0xAB])])
     (map_of [(''http://s/ab'', [1, 2, 3])]) zero_digest
   = Inr \<lparr>dir = [(''ab'', File [1, 2, 3]), (''index.mth'', File (MTHS_HEADER @ [0xAB]))],
          list_files = [], found_count = 1, download_count = 1, delete_count = 0,
          to_download = [''ab''], to_delete = []\<rparr>"
  by code_simp


theorem foreign_names_untouched_witness:
  "''notes.txt'' \<in> set (os_listdir example_dir) \<and> not_media_name ''notes.txt''
   \<and> not_media_name ''ab''
   \<and> (\<exists>r. main False False False ''http://s/'' example_dir
             (example_post (MTHS_HEADER @ hash_1f @ [0xAB])) example_get zero_digest = Inr r
         \<and> ''notes.txt'' \<notin> set (to_delete r) \<and> ''notes.txt'' \<notin> set (to_download r))
   \<and> (\<exists>r. main True False True ''http://s/'' [(''ab'', File [])]
             (example_post (MTHS_HEADER @ [0xAB])) example_get zero_digest = Inr r
         \<and> ''ab'' \<in> set (to_download r) \<and> ''ab'' \<notin> set (to_delete r)
         \<and> (\<exists>gs frag. MTHS_HEADER @ [0xAB] = MTHS_HEADER @ concat gs @ frag
               \<and> 0 < length frag \<and> length frag < 20 \<and> ''ab'' = bytes_hex frag))
   \<and> (\<exists>s e. download_loop False (base_url ''http://s/'') example_get
               (take 0 [''abababababababababababababababababababab''])
               \<lparr>dir = example_dir, list_files = os_listdir example_dir,
                found_count = 0, download_count = 0, delete_count = 0,
                to_download = [], to_delete = []\<rparr> = Inr s
         \<and> download_loop False (base_url ''http://s/'') example_get
               (take (Suc 0) [''abababababababababababababababababababab''])
               \<lparr>dir = example_dir, list_files = os_listdir example_dir,
                found_count = 0, download_count = 0, delete_count = 0,
                to_download = [], to_delete = []\<rparr> = Inl e
         \<and> to_delete s = []
         \<and> ''notes.txt'' \<notin> set (to_download s @
               [[''abababababababababababababababababababab''] ! 0]))
   \<and> (\<exists>s1 s2 e. delete_loop (take 0 (list_files s1)) s1 = Inr s2
         \<and> delete_loop (take (Suc 0) (list_files s1)) s1 = Inl e
         \<and> ''notes.txt'' \<in> set (list_files s1)
         \<and> ''notes.txt'' \<notin> set (to_delete s2) \<and> list_files s1 ! 0 \<noteq> ''notes.txt'')"
proof -
  have local: "''notes.txt'' \<in> set (os_listdir example_dir)"
    by (simp add: example_dir_names)
  have foreign: "not_media_name ''notes.txt''"
    by (simp add: not_media_name_def)
  have short: "not_media_name ''ab''"
    by (simp add: not_media_name_def)
  \<comment> \<open>a run that ends normally, the name not that of the fragment\<close>
  have p1: "\<exists>r. main False False False ''http://s/'' example_dir
             (example_post (MTHS_HEADER @ hash_1f @ [0xAB])) example_get zero_digest = Inr r
         \<and> ''notes.txt'' \<notin> set (to_delete r) \<and> ''notes.txt'' \<notin> set (to_download r)"
  proof -
    obtain r where
      run: "main False False False ''http://s/'' example_dir
         (example_post (MTHS_HEADER @ hash_1f @ [0xAB])) example_get zero_digest = Inr r"
      by (rule that [OF example_run_fragment])
    from foreign_names_untouched
      [where post = "example_post (MTHS_HEADER @ hash_1f @ [0xAB])"
         and media_index = "''http://s/''",
        OF example_post_index(2) iter_mth_examples(1) local foreign,
        THEN conjunct1, rule_format, OF run]
    have "''notes.txt'' \<notin> set (to_delete r) \<and> ''notes.txt'' \<notin> set (to_download r)"
      by simp
    with run show ?thesis by (intro exI [of _ r]) simp
  qed
  \<comment> \<open>a run that ends normally and downloads the name of the fragment\<close>
  have p2: "\<exists>r. main True False True ''http://s/'' [(''ab'', File [])]
             (example_post (MTHS_HEADER @ [0xAB])) example_get zero_digest = Inr r
         \<and> ''ab'' \<in> set (to_download r) \<and> ''ab'' \<notin> set (to_delete r)
         \<and> (\<exists>gs frag. MTHS_HEADER @ [0xAB] = MTHS_HEADER @ concat gs @ frag
               \<and> 0 < length frag \<and> length frag < 20 \<and> ''ab'' = bytes_hex frag)"
  proof -
    obtain r where
      run: "main True False True ''http://s/'' [(''ab'', File [])]
             (example_post (MTHS_HEADER @ [0xAB])) example_get zero_digest = Inr r"
      and dl: "''ab'' \<in> set (to_download r)"
      by (rule that [OF example_run_short_name]) simp
    have here: "''ab'' \<in> set (os_listdir [(''ab'', File [])])"
      by (simp add: os_listdir_def)
    from foreign_names_untouched
      [where post = "example_post (MTHS_HEADER @ [0xAB])" and media_index = "''http://s/''",
        OF example_post_index(2) iter_mth_examples(4) here short,
        THEN conjunct1, rule_format, OF run] dl
    have "''ab'' \<notin> set (to_delete r)
         \<and> (\<exists>gs frag. MTHS_HEADER @ [0xAB] = MTHS_HEADER @ concat gs @ frag
               \<and> 0 < length frag \<and> length frag < 20 \<and> ''ab'' = bytes_hex frag)"
      by blast
    with run dl show ?thesis by (intro exI [of _ r]) simp
  qed
  \<comment> \<open>a run that ends in the loop over the hashes\<close>
  let ?s0 = "\<lparr>dir = example_dir, list_files = os_listdir example_dir,
                found_count = 0, download_count = 0, delete_count = 0,
                to_download = [], to_delete = []\<rparr>"
  let ?h = "''abababababababababababababababababababab''"
  have p3: "\<exists>s e. download_loop False (base_url ''http://s/'') example_get (take 0 [?h]) ?s0 = Inr s
         \<and> download_loop False (base_url ''http://s/'') example_get (take (Suc 0) [?h]) ?s0 = Inl e
         \<and> to_delete s = []
         \<and> ''notes.txt'' \<notin> set (to_download s @ [[?h] ! 0])"
  proof -
    obtain s where
      a: "download_loop False (base_url ''http://s/'') example_get (take 0 [?h]) ?s0 = Inr s"
      by simp
    note b = example_loop_fails
    from foreign_names_untouched
      [where post = "example_post (MTHS_HEADER @ replicate 20 0xAB)"
         and media_index = "''http://s/''",
        OF example_post_index(2) iter_mth_examples(2) local foreign,
        THEN conjunct2, THEN conjunct1, rule_format, OF conjI [OF a b]]
    have "to_delete s = [] \<and> ''notes.txt'' \<notin> set (to_download s @ [[?h] ! 0])"
      by simp
    with a b show ?thesis
      by (intro exI [of _ s] exI [of _ "TransportError (''http://s/'' @ ?h)"]) simp
  qed
  \<comment> \<open>a run that ends in the loop over the names\<close>
  let ?a = "''aaaaaaaaaaaaaaaaaaaaaaaaaaaaaaaaaaaaaaaa''"
  let ?d = "[(?a, Dir), (''notes.txt'', File [9])]"
  have p4: "\<exists>s1 s2 e. delete_loop (take 0 (list_files s1)) s1 = Inr s2
         \<and> delete_loop (take (Suc 0) (list_files s1)) s1 = Inl e
         \<and> ''notes.txt'' \<in> set (list_files s1)
         \<and> ''notes.txt'' \<notin> set (to_delete s2) \<and> list_files s1 ! 0 \<noteq> ''notes.txt''"
  proof -
    let ?s1 = "\<lparr>dir = ?d, list_files = os_listdir ?d,
                found_count = 0, download_count = 0, delete_count = 0,
                to_download = [], to_delete = []\<rparr>"
    have there: "''notes.txt'' \<in> set (os_listdir ?d)"
      by (simp add: os_listdir_def)
    have a: "download_loop False (base_url ''http://s/'') example_get [] ?s1 = Inr ?s1"
      by simp
    obtain s2 where b: "delete_loop (take 0 (list_files ?s1)) ?s1 = Inr s2"
      by simp
    have c: "delete_loop (take (Suc 0) (list_files ?s1)) ?s1 = Inl (IsADirectoryError ?a)"
      using example_delete_fails by (simp add: os_listdir_def)
    note t = foreign_names_untouched
      [where post = "example_post MTHS_HEADER" and media_index = "''http://s/''",
        OF example_post_index(2) iter_mth_examples(3) there foreign,
        THEN conjunct2, THEN conjunct2, rule_format, OF conjI [OF a b]]
    from t have d: "''notes.txt'' \<notin> set (to_delete s2)" by simp
    from t have "\<forall>e. delete_loop (take (Suc 0) (list_files ?s1)) ?s1 = Inl e \<longrightarrow>
        list_files ?s1 ! 0 \<noteq> ''notes.txt''" by simp
    with c have e: "list_files ?s1 ! 0 \<noteq> ''notes.txt''" by blast
    from there have f: "''notes.txt'' \<in> set (list_files ?s1)" by simp
    from b c d e f show ?thesis
      by (intro exI [of _ ?s1] exI [of _ s2] exI [of _ "IsADirectoryError ?a"] conjI)
  qed
  from local foreign short p1 p2 p3 p4 show ?thesis by (intro conjI)
qed

text \<open>
  Claim C6. In a run over a destination directory (whose names are distinct, as the
  names of a directory are), whatever the index and the flags, no name is both
  downloaded and passed to \<^verbatim>\<open>os.remove\<close>.
\<close>

theorem download_delete_disjoint:
  assumes run: "main delete generate redownload media_index destination post get sha1 = Inr r"
    and names: "distinct (os_listdir destination)"
  shows "set (to_download r) \<inter> set (to_delete r) = {}"
proof -
  from run obtain hashes s1 where
    loop: "download_loop redownload (base_url media_index) get hashes
       \<lparr>dir = destination, list_files = os_listdir destination,
        found_count = 0, download_count = 0, delete_count = 0,
        to_download = [], to_delete = []\<rparr> = Inr s1" and
    r: "to_download r = to_download s1"
       "to_delete r = to_delete s1 @
         (if delete then filter (\<lambda>n. \<not> not_media_name n) (list_files s1) else [])"
    by (auto elim!: main_InrE)
  from download_loop_disjoint [OF loop] names
  have "set (to_download s1) \<inter> set (list_files s1) = {}" by simp
  moreover have "set (to_delete r) \<subseteq> set (list_files s1)"
    using r(2) main_loop_Inr(2) [OF loop] by auto
  ultimately show ?thesis using r(1) by auto
qed

theorem download_delete_disjoint_witness:
  "\<exists>r. main True False False ''http://s'' example_dir
         (example_post (MTHS_HEADER @ hash_1f @ hash_1f)) example_get zero_digest = Inr r
     \<and> distinct (os_listdir example_dir)
     \<and> to_download r \<noteq> [] \<and> to_delete r \<noteq> []
     \<and> set (to_download r) \<inter> set (to_delete r) = {}"
proof -
  obtain r where
    run: "main True False False ''http://s'' example_dir
         (example_post (MTHS_HEADER @ hash_1f @ hash_1f)) example_get zero_digest = Inr r"
    and some: "to_download r \<noteq> []" "to_delete r \<noteq> []"
    by (rule that [OF example_run_duplicate]) simp_all
  from download_delete_disjoint [OF run distinct_example_dir] run some distinct_example_dir
  show ?thesis by (intro exI [of _ r]) simp
qed

text \<open>
  Claim C7. Let the index name a hash \<open>h\<close> twice, \<open>h\<close> be a name of the destination
  directory, and \<^verbatim>\<open>redownload\<close> be off. Then both occurrences are counted in
  \<^verbatim>\<open>found_count\<close>; the first finds the local entry, takes it out of \<^verbatim>\<open>list_files\<close>
  and schedules nothing; the second finds no local entry and schedules the download.
  So \<open>h\<close> is downloaded once, at the place of its second occurrence, and
  \<^verbatim>\<open>download_count\<close> counts that download.
\<close>

theorem duplicate_hash_downloaded_once:
  assumes run: "main delete generate False media_index destination post get sha1 = Inr r"
    and fetched: "post (base_url media_index @ ''index.mth'') = Some mth_bytes"
    and twice: "iter_mth mth_bytes = Inr (pre @ h # mid @ h # rest)"
    and others: "h \<notin> set pre" "h \<notin> set mid" "h \<notin> set rest"
    and local: "h \<in> set (os_listdir destination)"
    and names: "distinct (os_listdir destination)"
  shows "found_count r = length (pre @ h # mid @ h # rest)
    \<and> download_count r = length (to_download r)
    \<and> (\<exists>D1 D2 D3. to_download r = D1 @ D2 @ h # D3
          \<and> set D1 \<subseteq> set pre \<and> set D2 \<subseteq> set mid \<and> set D3 \<subseteq> set rest)
    \<and> count_list (to_download r) h = 1
    \<and> h \<notin> set (list_files r)"
proof -
  let ?s0 = "\<lparr>dir = destination, list_files = os_listdir destination,
        found_count = 0, download_count = 0, delete_count = 0,
        to_download = [], to_delete = []\<rparr>"
  let ?b = "base_url media_index"
  from run fetched twice obtain s1 where
    loop: "download_loop False ?b get (pre @ h # mid @ h # rest) ?s0 = Inr s1" and
    r: "to_download r = to_download s1" "list_files r = list_files s1"
       "found_count r = found_count s1" "download_count r = download_count s1"
    by (auto elim!: main_InrE)
  from loop obtain sa where
    a: "download_loop False ?b get pre ?s0 = Inr sa" and
    a': "download_loop False ?b get (h # mid @ h # rest) sa = Inr s1"
    by (rule download_loop_append_Inr)
  from a' obtain s2 where
    b: "download_loop False ?b get (mid @ h # rest) s2 = Inr s1" and
    s2: "list_files s2 = (if h \<in> set (list_files sa) then remove1 h (list_files sa)
                          else list_files sa)"
        "to_download s2 = (if h \<in> set (list_files sa) \<and> \<not> False then to_download sa
                           else to_download sa @ [h])"
    by (rule download_loop_Cons_Inr)
  from b obtain sb where
    c: "download_loop False ?b get mid s2 = Inr sb" and
    c': "download_loop False ?b get (h # rest) sb = Inr s1"
    by (rule download_loop_append_Inr)
  from c' obtain s3 where
    d: "download_loop False ?b get rest s3 = Inr s1" and
    s3: "list_files s3 = (if h \<in> set (list_files sb) then remove1 h (list_files sb)
                          else list_files sb)"
        "to_download s3 = (if h \<in> set (list_files sb) \<and> \<not> False then to_download sb
                           else to_download sb @ [h])"
    by (rule download_loop_Cons_Inr)
  \<comment> \<open>before the first occurrence\<close>
  from download_loop_Inr [OF a] obtain D1 where
    D1: "to_download sa = D1" "set D1 \<subseteq> set pre" by auto
  from download_loop_list_files [OF a] others(1) local names
  have la: "h \<in> set (list_files sa)" "distinct (list_files sa)" by simp_all
  \<comment> \<open>the first occurrence: found, taken out, nothing scheduled\<close>
  from s2 la have l2: "list_files s2 = remove1 h (list_files sa)"
    and t2: "to_download s2 = D1" by (simp_all add: D1)
  from l2 la(2) have h2: "h \<notin> set (list_files s2)" by simp
  \<comment> \<open>between the occurrences\<close>
  from download_loop_Inr [OF c] obtain D2 where
    D2: "to_download sb = D1 @ D2" "set D2 \<subseteq> set mid" by (auto simp: t2)
  from download_loop_list_files [OF c] h2 have hb: "h \<notin> set (list_files sb)" by auto
  \<comment> \<open>the second occurrence: not found, scheduled\<close>
  from s3 hb have l3: "list_files s3 = list_files sb"
    and t3: "to_download s3 = D1 @ D2 @ [h]" by (simp_all add: D2)
  from download_loop_Inr [OF d] obtain D3 where
    D3: "to_download s1 = D1 @ D2 @ h # D3" "set D3 \<subseteq> set rest" by (auto simp: t3)
  from download_loop_list_files [OF d] hb l3 have h1: "h \<notin> set (list_files s1)" by auto
  have cnt: "count_list (D1 @ D2 @ h # D3) h = 1"
    using D1(2) D2(2) D3(2) others by (auto simp: count_list_0_iff)
  from main_loop_Inr(1,4) [OF loop] r D1(2) D2(2) D3 h1 cnt show ?thesis
    by (intro conjI exI [of _ D1] exI [of _ D2] exI [of _ D3]) simp_all
qed

theorem duplicate_hash_downloaded_once_witness:
  "\<exists>r. main True False False ''http://s'' example_dir
         (example_post (MTHS_HEADER @ hash_1f @ hash_1f)) example_get zero_digest = Inr r
     \<and> iter_mth (MTHS_HEADER @ hash_1f @ hash_1f) = Inr [name_1f, name_1f]
     \<and> name_1f \<in> set (os_listdir example_dir) \<and> distinct (os_listdir example_dir)
     \<and> found_count r = 2 \<and> download_count r = length (to_download r)
     \<and> count_list (to_download r) name_1f = 1 \<and> name_1f \<notin> set (list_files r)"
proof -
  obtain r where
    run: "main True False False ''http://s'' example_dir
         (example_post (MTHS_HEADER @ hash_1f @ hash_1f)) example_get zero_digest = Inr r"
    by (rule that [OF example_run_duplicate])
  have local: "name_1f \<in> set (os_listdir example_dir)"
    by (simp add: example_dir_names)
  have no: "name_1f \<notin> set []" by simp
  from duplicate_hash_downloaded_once
    [OF run example_post_index(1) iter_mth_example_duplicate no no no local distinct_example_dir]
  have "found_count r = 2 \<and> download_count r = length (to_download r)
     \<and> count_list (to_download r) name_1f = 1 \<and> name_1f \<notin> set (list_files r)"
    by simp
  moreover from iter_mth_example_duplicate
  have "iter_mth (MTHS_HEADER @ hash_1f @ hash_1f) = Inr [name_1f, name_1f]" by simp
  ultimately show ?thesis using run local distinct_example_dir
    by (intro exI [of _ r]) simp
qed

text \<open>
  Claim C8. Let the index hold the single hash \<open>A\<close>, its hex string be a name of the
  destination directory, and \<^verbatim>\<open>redownload\<close> be on. Then exactly \<open>A\<close> is downloaded,
  \<^verbatim>\<open>download_count\<close> is 1, and \<open>A\<close> is taken out of \<^verbatim>\<open>list_files\<close>, so it is not
  passed to \<^verbatim>\<open>os.remove\<close> whether deletion is on or off.
\<close>

theorem redownload_forces_download:
  assumes run: "main delete generate True media_index destination post get sha1 = Inr r"
    and fetched: "post (base_url media_index @ ''index.mth'') = Some (MTHS_HEADER @ a)"
    and a: "length a = 20"
    and local: "bytes_hex a \<in> set (os_listdir destination)"
    and names: "distinct (os_listdir destination)"
  shows "to_download r = [bytes_hex a] \<and> download_count r = 1 \<and> found_count r = 1
    \<and> bytes_hex a \<notin> set (list_files r) \<and> bytes_hex a \<notin> set (to_delete r)"
proof -
  let ?s0 = "\<lparr>dir = destination, list_files = os_listdir destination,
        found_count = 0, download_count = 0, delete_count = 0,
        to_download = [], to_delete = []\<rparr>"
  have "iter_mth (MTHS_HEADER @ concat [a] @ []) = Inr (map bytes_hex [a] @ [])"
    using iter_mth_groups [of "[a]" "[]"] a by simp
  then have dec: "iter_mth (MTHS_HEADER @ a) = Inr [bytes_hex a]" by simp
  from run fetched dec obtain s1 where
    loop: "download_loop True (base_url media_index) get [bytes_hex a] ?s0 = Inr s1" and
    r: "to_download r = to_download s1" "list_files r = list_files s1"
       "found_count r = found_count s1" "download_count r = download_count s1"
       "to_delete r = to_delete s1 @
         (if delete then filter (\<lambda>n. \<not> not_media_name n) (list_files s1) else [])"
    by (auto elim!: main_InrE)
  from loop obtain s2 where
    e: "download_loop True (base_url media_index) get [] s2 = Inr s1" and
    s2: "list_files s2 = (if bytes_hex a \<in> set (list_files ?s0)
                          then remove1 (bytes_hex a) (list_files ?s0) else list_files ?s0)"
        "to_download s2 = (if bytes_hex a \<in> set (list_files ?s0) \<and> \<not> True
                           then to_download ?s0 else to_download ?s0 @ [bytes_hex a])"
    by (rule download_loop_Cons_Inr)
  from e have s1: "s1 = s2" by simp
  from s2 local names have l: "bytes_hex a \<notin> set (list_files s1)"
    and t: "to_download s1 = [bytes_hex a]" by (simp_all add: s1)
  from main_loop_Inr(1,2,4) [OF loop] r l t show ?thesis by auto
qed

theorem redownload_forces_download_witness:
  "\<exists>r. main True True True ''http://s/'' example_dir
         (example_post (MTHS_HEADER @ hash_1f)) example_get zero_digest = Inr r
     \<and> length hash_1f = 20 \<and> bytes_hex hash_1f = name_1f
     \<and> name_1f \<in> set (os_listdir example_dir) \<and> distinct (os_listdir example_dir)
     \<and> to_download r = [name_1f] \<and> download_count r = 1 \<and> found_count r = 1
     \<and> name_1f \<notin> set (list_files r) \<and> name_1f \<notin> set (to_delete r)"
proof -
  obtain r where
    run: "main True True True ''http://s/'' example_dir
         (example_post (MTHS_HEADER @ hash_1f)) example_get zero_digest = Inr r"
    by (rule that [OF example_run_generate])
  have len: "length hash_1f = 20" by (simp add: hash_1f_def)
  have hex: "bytes_hex hash_1f = name_1f" by code_simp
  have local: "bytes_hex hash_1f \<in> set (os_listdir example_dir)"
    by (simp add: hex example_dir_names)
  from redownload_forces_download [OF run example_post_index(2) len local distinct_example_dir]
  have "to_download r = [name_1f] \<and> download_count r = 1 \<and> found_count r = 1
     \<and> name_1f \<notin> set (list_files r) \<and> name_1f \<notin> set (to_delete r)"
    by (simp add: hex)
  with run len hex local distinct_example_dir show ?thesis
    by (intro exI [of _ r]) (simp add: hex)
qed

text \<open>
  Claim C9. A run with \<^verbatim>\<open>generate\<close> off that ends normally leaves in
  \<^verbatim>\<open>index.mth\<close> exactly the bytes that were fetched, whatever they are: they are not
  decoded and encoded again, and a fragment after the last full group is kept.
\<close>

theorem remote_index_written_verbatim:
  assumes run: "main delete False redownload media_index destination post get sha1 = Inr r"
    and fetched: "post (base_url media_index @ ''index.mth'') = Some mth_bytes"
  shows "map_of (dir r) ''index.mth'' = Some (File mth_bytes)"
proof -
  from run fetched obtain d2 where
    "write_file ''index.mth'' mth_bytes d2 = Inr (dir r)"
    by (auto elim!: main_InrE)
  from write_file_Inr [OF this] show ?thesis by (simp add: map_of_put_file)
qed

theorem remote_index_written_verbatim_witness:
  "\<exists>r. main False False False ''http://s/'' example_dir
         (example_post (MTHS_HEADER @ hash_1f @ [0xAB])) example_get zero_digest = Inr r
     \<and> map_of (dir r) ''index.mth'' = Some (File (MTHS_HEADER @ hash_1f @ [0xAB]))"
proof -
  obtain r where
    run: "main False False False ''http://s/'' example_dir
         (example_post (MTHS_HEADER @ hash_1f @ [0xAB])) example_get zero_digest = Inr r"
    by (rule that [OF example_run_fragment])
  from remote_index_written_verbatim [OF run example_post_index(2)] run show ?thesis
    by (intro exI [of _ r]) simp
qed

text \<open>
  Claim C10. A run with \<^verbatim>\<open>generate\<close> on that ends normally, with a digest function
  whose digests have 20 bytes, leaves in \<^verbatim>\<open>index.mth\<close> the header followed by the
  digests of the \<open>M\<close> regular files of the destination whose names pass the name test,
  in directory order: \<open>6 + 20 * M\<close> bytes. Decoding that index raises no error and
  yields \<open>M\<close> strings of 40 characters, the hex strings of the digests; there is no
  shorter last string.
\<close>

theorem generated_index_well_formed:
  assumes run: "main delete True redownload media_index destination post get sha1 = Inr r"
    and sha1: "\<forall>content. length (sha1 content) = 20"
  shows "\<exists>digests. digests = map sha1 [c. (n, File c) \<leftarrow> dir r, \<not> not_media_name n]
    \<and> map_of (dir r) ''index.mth'' = Some (File (MTHS_HEADER @ concat digests))
    \<and> length (MTHS_HEADER @ concat digests) = 6 + 20 * length digests
    \<and> iter_mth (MTHS_HEADER @ concat digests) = Inr (map bytes_hex digests)
    \<and> (\<forall>s\<in>set (map bytes_hex digests). length s = 40)"
proof -
  let ?digests = "map sha1 [c. (n, File c) \<leftarrow> dir r, \<not> not_media_name n]"
  from run obtain d2 where "generate_index sha1 d2 = Inr (dir r)"
    by (auto elim!: main_InrE)
  from generate_index_Inr [OF this]
  have written: "map_of (dir r) ''index.mth'' = Some (File (MTHS_HEADER @ concat ?digests))" .
  from sha1 have twenty: "\<forall>g\<in>set ?digests. length g = 20" by auto
  then have "length (concat ?digests) = 20 * length ?digests"
    by (rule length_concat_groups)
  then have len: "length (MTHS_HEADER @ concat ?digests) = 6 + 20 * length ?digests"
    by (simp add: length_MTHS_HEADER)
  from iter_mth_groups [OF twenty, of "[]"]
  have dec: "iter_mth (MTHS_HEADER @ concat ?digests) = Inr (map bytes_hex ?digests)" by simp
  from twenty have "\<forall>s\<in>set (map bytes_hex ?digests). length s = 40"
    by (auto simp: length_bytes_hex)
  with written len dec show ?thesis by simp
qed

theorem generated_index_well_formed_witness:
  "\<exists>r. main True True True ''http://s/'' example_dir
         (example_post (MTHS_HEADER @ hash_1f)) example_get zero_digest = Inr r
     \<and> (\<forall>content. length (zero_digest content) = 20)
     \<and> (\<exists>digests. map_of (dir r) ''index.mth'' = Some (File (MTHS_HEADER @ concat digests))
          \<and> length (MTHS_HEADER @ concat digests) = 6 + 20 * length digests
          \<and> iter_mth (MTHS_HEADER @ concat digests) = Inr (map bytes_hex digests))"
proof -
  obtain r where
    run: "main True True True ''http://s/'' example_dir
         (example_post (MTHS_HEADER @ hash_1f)) example_get zero_digest = Inr r"
    by (rule that [OF example_run_generate])
  have len: "\<forall>content. length (zero_digest content) = 20"
    by (simp add: zero_digest_def)
  from generated_index_well_formed [OF run len] obtain digests where
    "map_of (dir r) ''index.mth'' = Some (File (MTHS_HEADER @ concat digests))"
    "length (MTHS_HEADER @ concat digests) = 6 + 20 * length digests"
    "iter_mth (MTHS_HEADER @ concat digests) = Inr (map bytes_hex digests)"
    by auto
  with run len show ?thesis by (intro exI [of _ r] conjI exI [of _ digests]) simp_all
qed


end
